theory Spec2Isabelle
  imports Complex_Main "HOL-Library.Sublist" "HOL-Library.Word"
begin

section \<open>Python text\<close>

text \<open>
  A Python \<^verbatim>\<open>str\<close> is a sequence of Unicode code points and \<^verbatim>\<open>len\<close> counts code
  points, so text is modelled as a list of code points. ASCII literals are written
  through \<open>lit\<close>; the ellipsis U+2026 that the context builder appends is the single
  code point 8230.
\<close>

type_synonym pystr = "nat list"

definition lit :: "string \<Rightarrow> pystr" where
  "lit s = map of_char s"

text \<open>
  \<^verbatim>\<open>sub in s\<close>: some suffix of \<open>s\<close> starts with \<open>sub\<close>.
\<close>

fun str_contains :: "pystr \<Rightarrow> pystr \<Rightarrow> bool" where
  "str_contains sub [] = (sub = [])"
| "str_contains sub (c # cs) = (prefix sub (c # cs) \<or> str_contains sub cs)"

text \<open>
  \<^verbatim>\<open>s.replace(old, new)\<close>: the non-overlapping occurrences of \<open>old\<close>, found from
  the left, are replaced. With an empty \<open>old\<close> Python inserts \<open>new\<close> before every
  character and at the end.
\<close>

function replace_nonempty :: "pystr \<Rightarrow> pystr \<Rightarrow> pystr \<Rightarrow> pystr" where
  "replace_nonempty old new [] = []"
| "replace_nonempty old new (c # cs) =
     (if old \<noteq> [] \<and> prefix old (c # cs)
      then new @ replace_nonempty old new (drop (length old) (c # cs))
      else c # replace_nonempty old new cs)"
  by pat_completeness auto
termination
  by (relation "measure (\<lambda>(old, new, s). length s)") auto

definition str_replace :: "pystr \<Rightarrow> pystr \<Rightarrow> pystr \<Rightarrow> pystr" where
  "str_replace old new s =
     (if old = [] then new @ concat (map (\<lambda>c. c # new) s)
      else replace_nonempty old new s)"

section \<open>Whole-document blank-line cleanup (pdf_to_markdown_full_ocr.py, lines 232-233)\<close>

definition nl3 :: pystr where
  "nl3 = [10, 10, 10]"

definition nl2 :: pystr where
  "nl2 = [10, 10]"

lemma replace_nonempty_length_le:
  "length new \<le> length old \<Longrightarrow> length (replace_nonempty old new s) \<le> length s"
proof (induction old new s rule: replace_nonempty.induct)
  case (1 old new)
  show ?case by simp
next
  case (2 old new c cs)
  show ?case
  proof (cases "old \<noteq> [] \<and> prefix old (c # cs)")
    case True
    then have len: "length old \<le> length (c # cs)"
      by (auto dest: prefix_length_le)
    from True 2 have "length (replace_nonempty old new (drop (length old) (c # cs)))
        \<le> length (c # cs) - length old"
      by simp
    with True len 2(3) show ?thesis by simp
  next
    case False
    with 2 show ?thesis by auto
  qed
qed

lemma replace_nonempty_length_less:
  "length new < length old \<Longrightarrow> str_contains old s
     \<Longrightarrow> length (replace_nonempty old new s) < length s"
proof (induction old new s rule: replace_nonempty.induct)
  case (1 old new)
  then show ?case by simp
next
  case (2 old new c cs)
  show ?case
  proof (cases "old \<noteq> [] \<and> prefix old (c # cs)")
    case True
    then have len: "length old \<le> length (c # cs)"
      by (auto dest: prefix_length_le)
    have "length (replace_nonempty old new (drop (length old) (c # cs)))
        \<le> length (c # cs) - length old"
      using replace_nonempty_length_le [of new old "drop (length old) (c # cs)"] 2(3)
      by simp
    with True len 2(3) show ?thesis by simp
  next
    case False
    with 2(3) have ne: "old \<noteq> []" by auto
    with False 2(4) have "str_contains old cs" by simp
    with False 2 show ?thesis by auto
  qed
qed

function collapse_blank_lines :: "pystr \<Rightarrow> pystr" where
  "collapse_blank_lines s =
     (if str_contains nl3 s then collapse_blank_lines (str_replace nl3 nl2 s) else s)"
  by pat_completeness auto
termination
proof (relation "measure length")
  show "wf (measure length)" by simp
next
  fix s :: pystr
  assume "str_contains nl3 s"
  then have "length (replace_nonempty nl3 nl2 s) < length s"
    by (intro replace_nonempty_length_less) (simp_all add: nl3_def nl2_def)
  then show "(str_replace nl3 nl2 s, s) \<in> measure length"
    by (simp add: str_replace_def nl3_def)
qed

declare collapse_blank_lines.simps [simp del]

lemma collapse_blank_lines_clean: "\<not> str_contains nl3 (collapse_blank_lines s)"
proof (induction s rule: collapse_blank_lines.induct)
  case (1 s)
  show ?case
  proof (cases "str_contains nl3 s")
    case True
    with 1 show ?thesis by (subst collapse_blank_lines.simps) simp
  next
    case False
    then show ?thesis by (subst collapse_blank_lines.simps) simp
  qed
qed

text \<open>
  C6. The cleanup loop of the orchestrator (replace every three consecutive newlines by
  two until no three consecutive newlines remain) is idempotent: running it on its own
  result changes nothing.
\<close>

theorem collapse_blank_lines_idempotent:
  "collapse_blank_lines (collapse_blank_lines s) = collapse_blank_lines s"
  by (subst collapse_blank_lines.simps) (simp add: collapse_blank_lines_clean)


section \<open>Image Size Capper (pdf_to_markdown_full_ocr.py, lines 65-120)\<close>

text \<open>
  Exceptions are values. \<open>ExternalError\<close> stands for any exception raised inside a
  library or service call (Pillow, PyMuPDF, the model endpoint); all of them derive
  from Python's \<^verbatim>\<open>Exception\<close>.
\<close>

datatype exn =
    RuntimeError
  | ValueError int int int
  | UnboundLocalError
  | ZeroDivisionError
  | TypeError
  | OverflowError
  | ExternalError nat

type_synonym bytes = "8 word list"

record image =
  width :: int
  height :: int
  mode :: string
  pixels :: bytes

text \<open>
  The Pillow operations the capper calls. Encoders and the resampler may raise; the
  pixel operations of \<^verbatim>\<open>_ensure_rgb\<close> yield the pixels of the new RGB image.
\<close>

record pillow =
  save_png :: "image \<Rightarrow> exn + bytes"
  save_jpeg :: "image \<Rightarrow> int \<Rightarrow> exn + bytes"
  paste_alpha_on_white :: "image \<Rightarrow> bytes"
  paste_on_white :: "image \<Rightarrow> bytes"
  convert_rgb :: "image \<Rightarrow> bytes"
  resize_lanczos :: "image \<Rightarrow> int \<Rightarrow> int \<Rightarrow> exn + image"

text \<open>The library calls made by one run of the capper, in order.\<close>

datatype call = SavePNG | EnsureRGB | SaveJPEG int | Resize int int

fun is_resize :: "call \<Rightarrow> bool" where
  "is_resize (Resize w h) = True"
| "is_resize c = False"

definition ensure_rgb :: "pillow \<Rightarrow> image \<Rightarrow> image" where
  "ensure_rgb lib img =
     (if mode img \<in> {''RGBA'', ''LA'', ''P''} then
        (if mode img \<in> {''RGBA'', ''LA''}
         then img\<lparr>mode := ''RGB'', pixels := paste_alpha_on_white lib img\<rparr>
         else img\<lparr>mode := ''RGB'', pixels := paste_on_white lib img\<rparr>)
      else if mode img \<noteq> ''RGB'' then img\<lparr>mode := ''RGB'', pixels := convert_rgb lib img\<rparr>
      else img)"

text \<open>
  \<^verbatim>\<open>range(start, stop, step)\<close> for a non-zero step (the capper uses step -10).
\<close>

function py_range :: "int \<Rightarrow> int \<Rightarrow> int \<Rightarrow> int list" where
  "py_range start stop step =
     (if 0 < step \<and> start < stop then start # py_range (start + step) stop step
      else if step < 0 \<and> stop < start then start # py_range (start + step) stop step
      else [])"
  by pat_completeness auto
termination
  by (relation "measure (\<lambda>(start, stop, step).
        nat (if 0 < step then stop - start else start - stop))") auto

declare py_range.simps [simp del]

text \<open>
  The way the quality loop ends: a \<^verbatim>\<open>return\<close> from inside the loop, an exception
  of the encoder, or the end of the range with the last value of \<^verbatim>\<open>data\<close> (unbound
  when the loop body never ran).
\<close>

datatype loop_exit = Returned bytes | Raised exn | Exhausted "bytes option"

fun jpeg_quality_loop ::
  "pillow \<Rightarrow> image \<Rightarrow> int \<Rightarrow> int list \<Rightarrow> bytes option \<Rightarrow> call list \<Rightarrow> call list \<times> loop_exit"
where
  "jpeg_quality_loop lib jpeg_img max_bytes [] data calls = (calls, Exhausted data)"
| "jpeg_quality_loop lib jpeg_img max_bytes (q # qs) data calls =
     (case save_jpeg lib jpeg_img q of
        Inl e \<Rightarrow> (calls @ [SaveJPEG q], Raised e)
      | Inr d \<Rightarrow>
          if int (length d) \<le> max_bytes then (calls @ [SaveJPEG q], Returned d)
          else jpeg_quality_loop lib jpeg_img max_bytes qs (Some d) (calls @ [SaveJPEG q]))"

text \<open>\<^verbatim>\<open>int(x)\<close> on a float truncates towards zero.\<close>

definition py_int :: "real \<Rightarrow> int" where
  "py_int x = (if 0 \<le> x then \<lfloor>x\<rfloor> else \<lceil>x\<rceil>)"

text \<open>
  The double-precision operations of lines 111-113. A double is the real number it
  denotes; what the operations round to is left to the floating-point unit, so the model
  follows the program on every platform: \<open>true_div\<close> is \<^verbatim>\<open>max_bytes / last_len\<close> for a
  non-zero divisor (OverflowError when the quotient is too large for a float),
  \<open>pow_half\<close> is \<^verbatim>\<open>x ** 0.5\<close> for a non-negative \<open>x\<close>, \<open>lit_0_2\<close> is the literal \<^verbatim>\<open>0.2\<close>
  and \<open>int_times\<close> is the product of an integer and a float. Comparison, \<^verbatim>\<open>max\<close> and
  \<^verbatim>\<open>int()\<close> are exact on doubles. With IEEE doubles, a budget of 588, a last payload of
  1200 bytes and a width of 90 give the product 62.99999999999999 and the target width
  62, where exact arithmetic would give 63.
\<close>

record float64 =
  true_div :: "int \<Rightarrow> int \<Rightarrow> exn + real"
  pow_half :: "real \<Rightarrow> real"
  lit_0_2 :: real
  int_times :: "int \<Rightarrow> real \<Rightarrow> real"

text \<open>
  Step 3 (lines 108-120). Reading \<^verbatim>\<open>data\<close> when the loop body never ran raises
  UnboundLocalError; a zero \<^verbatim>\<open>last_len\<close> raises ZeroDivisionError; a negative ratio
  makes \<^verbatim>\<open>** 0.5\<close> complex, and \<^verbatim>\<open>max\<close> of a complex and a float raises TypeError.
\<close>

definition downscale_scale :: "float64 \<Rightarrow> real \<Rightarrow> real" where
  "downscale_scale fp ratio = max (pow_half fp ratio) (lit_0_2 fp)"

definition downscale_and_encode ::
  "float64 \<Rightarrow> pillow \<Rightarrow> image \<Rightarrow> int \<Rightarrow> int \<Rightarrow> int \<Rightarrow> bytes option \<Rightarrow> call list
     \<Rightarrow> call list \<times> (exn + bytes \<times> string)"
where
  "downscale_and_encode fp lib jpeg_img max_bytes q_min downscale_floor_px data calls =
     (case data of
        None \<Rightarrow> (calls, Inl UnboundLocalError)
      | Some d \<Rightarrow>
          let last_len = int (length d) in
          if last_len = 0 then (calls, Inl ZeroDivisionError)
          else
            (case true_div fp max_bytes last_len of
               Inl e \<Rightarrow> (calls, Inl e)
             | Inr ratio \<Rightarrow>
                 if ratio < 0 then (calls, Inl TypeError)
                 else
                   let scale = downscale_scale fp ratio;
                       new_w = max downscale_floor_px
                                 (py_int (int_times fp (width jpeg_img) scale));
                       new_h = max downscale_floor_px
                                 (py_int (int_times fp (height jpeg_img) scale))
                   in (case resize_lanczos lib jpeg_img new_w new_h of
                         Inl e \<Rightarrow> (calls @ [Resize new_w new_h], Inl e)
                       | Inr resized \<Rightarrow>
                           (case save_jpeg lib resized (max 70 q_min) of
                              Inl e \<Rightarrow>
                                (calls @ [Resize new_w new_h, SaveJPEG (max 70 q_min)], Inl e)
                            | Inr d' \<Rightarrow>
                                (calls @ [Resize new_w new_h, SaveJPEG (max 70 q_min)],
                                 Inr (d', ''image/jpeg''))))))"

definition image_bytes_with_size_cap ::
  "float64 \<Rightarrow> pillow \<Rightarrow> image \<Rightarrow> int \<Rightarrow> int \<Rightarrow> int \<Rightarrow> int
     \<Rightarrow> call list \<times> (exn + bytes \<times> string)"
where
  "image_bytes_with_size_cap fp lib pil_img max_bytes q_start q_min downscale_floor_px =
     (case save_png lib pil_img of
        Inl e \<Rightarrow> ([SavePNG], Inl e)
      | Inr png_data \<Rightarrow>
          if int (length png_data) \<le> max_bytes then ([SavePNG], Inr (png_data, ''image/png''))
          else
            let jpeg_img = ensure_rgb lib pil_img in
            (case jpeg_quality_loop lib jpeg_img max_bytes (py_range q_start (q_min - 1) (- 10))
                    None [SavePNG, EnsureRGB] of
               (calls, Returned d) \<Rightarrow> (calls, Inr (d, ''image/jpeg''))
             | (calls, Raised e) \<Rightarrow> (calls, Inl e)
             | (calls, Exhausted data) \<Rightarrow>
                 downscale_and_encode fp lib jpeg_img max_bytes q_min downscale_floor_px data
                   calls))"

text \<open>The hardcoded settings (lines 35-40).\<close>

definition MAX_IMAGE_BYTES :: int where
  "MAX_IMAGE_BYTES = 20 * 1024 ^ 2"

definition JPEG_QUALITY_START :: int where
  "JPEG_QUALITY_START = 85"

definition MIN_JPEG_QUALITY :: int where
  "MIN_JPEG_QUALITY = 35"

definition DOWNSCALE_FLOOR_PX :: int where
  "DOWNSCALE_FLOOR_PX = 720"

text \<open>
  For concrete runs: a stand-in codec with fixed payload sizes, a small page image, and
  a floating-point unit that computes without rounding.
\<close>

definition exact_floats :: float64 where
  "exact_floats =
     \<lparr>true_div = (\<lambda>a b. Inr (real_of_int a / real_of_int b)),
      pow_half = sqrt,
      lit_0_2 = 1 / 5,
      int_times = (\<lambda>n x. real_of_int n * x)\<rparr>"

definition stub_pillow :: "nat \<Rightarrow> (int \<Rightarrow> nat) \<Rightarrow> pillow" where
  "stub_pillow png_len jpeg_len =
     \<lparr>save_png = (\<lambda>im. Inr (replicate png_len 0)),
      save_jpeg = (\<lambda>im q. Inr (replicate (jpeg_len q) 0)),
      paste_alpha_on_white = pixels,
      paste_on_white = pixels,
      convert_rgb = pixels,
      resize_lanczos = (\<lambda>im w h. Inr (im\<lparr>width := w, height := h\<rparr>))\<rparr>"

definition stub_page :: image where
  "stub_page = \<lparr>width = 10, height = 20, mode = ''RGB'', pixels = []\<rparr>"

subsection \<open>Properties of the capper\<close>

lemma jpeg_quality_loop_resizes:
  "filter is_resize (fst (jpeg_quality_loop lib im mb qs d calls)) = filter is_resize calls"
  by (induction qs arbitrary: d calls) (auto split: sum.splits)

lemma jpeg_quality_loop_Returned:
  "jpeg_quality_loop lib im mb qs d calls = (calls', Returned x) \<Longrightarrow> int (length x) \<le> mb"
  by (induction qs arbitrary: d calls) (auto split: sum.splits if_splits)


lemma downscale_and_encode_Inr:
  assumes "downscale_and_encode fp lib im mb q_min fl d calls = (calls', Inr (data, mime))"
  shows "\<exists>w h resized. calls' = calls @ [Resize w h, SaveJPEG (max 70 q_min)]
           \<and> resize_lanczos lib im w h = Inr resized
           \<and> save_jpeg lib resized (max 70 q_min) = Inr data \<and> mime = ''image/jpeg''"
  using assms unfolding downscale_and_encode_def Let_def
  by (auto split: option.splits if_splits sum.splits)

text \<open>
  C1. Whenever the capper returns a payload, either the payload is within the byte budget
  and no resize was made (it comes from the lossless step or from one of the
  descending-quality lossy steps), or it is what the final downscale-and-re-encode step
  produced: the encoding, at quality \<open>max 70 q_min\<close>, of the one resized image. An earlier
  step never returns a payload over the budget.
\<close>

theorem capper_within_budget_or_final_step:
  assumes "image_bytes_with_size_cap fp lib img max_bytes q_start q_min fl =
             (calls, Inr (data, mime))"
  shows "(int (length data) \<le> max_bytes \<and> filter is_resize calls = []) \<or>
         (\<exists>w h resized. filter is_resize calls = [Resize w h]
            \<and> last calls = SaveJPEG (max 70 q_min)
            \<and> resize_lanczos lib (ensure_rgb lib img) w h = Inr resized
            \<and> save_jpeg lib resized (max 70 q_min) = Inr data \<and> mime = ''image/jpeg'')"
proof (cases "save_png lib img")
  case (Inl e)
  with assms show ?thesis by (simp add: image_bytes_with_size_cap_def)
next
  case (Inr png)
  show ?thesis
  proof (cases "int (length png) \<le> max_bytes")
    case True
    with Inr assms show ?thesis by (auto simp: image_bytes_with_size_cap_def)
  next
    case False
    let ?im = "ensure_rgb lib img"
    obtain c1 ex where loop: "jpeg_quality_loop lib ?im max_bytes
        (py_range q_start (q_min - 1) (- 10)) None [SavePNG, EnsureRGB] = (c1, ex)"
      by (cases "jpeg_quality_loop lib ?im max_bytes
        (py_range q_start (q_min - 1) (- 10)) None [SavePNG, EnsureRGB]")
    have c1: "filter is_resize c1 = []"
      using jpeg_quality_loop_resizes [of lib ?im max_bytes
        "py_range q_start (q_min - 1) (- 10)" None "[SavePNG, EnsureRGB]"] loop by simp
    show ?thesis
    proof (cases ex)
      case (Returned d)
      with loop have "int (length d) \<le> max_bytes" by (auto dest: jpeg_quality_loop_Returned)
      with Returned loop Inr False assms c1 show ?thesis
        by (auto simp: image_bytes_with_size_cap_def Let_def)
    next
      case (Raised e)
      with loop Inr False assms show ?thesis
        by (auto simp: image_bytes_with_size_cap_def Let_def)
    next
      case (Exhausted d)
      with loop Inr False assms
      have "downscale_and_encode fp lib ?im max_bytes q_min fl d c1 = (calls, Inr (data, mime))"
        by (auto simp: image_bytes_with_size_cap_def Let_def)
      from downscale_and_encode_Inr [OF this] c1 show ?thesis by auto
    qed
  qed
qed

text \<open>
  C2. When the lossless encoding fits the budget, the capper returns exactly these bytes
  tagged \<^verbatim>\<open>image/png\<close>, and the PNG encoding is the only library call it makes: no
  colour conversion and no lossy encoding is attempted.
\<close>

theorem capper_lossless_preferred:
  assumes "save_png lib img = Inr png" and "int (length png) \<le> max_bytes"
  shows "image_bytes_with_size_cap fp lib img max_bytes q_start q_min fl =
           ([SavePNG], Inr (png, ''image/png''))"
  using assms by (simp add: image_bytes_with_size_cap_def)




lemma py_range_85_34: "py_range 85 34 (- 10) = [85, 75, 65, 55, 45, 35]"
  by (simp add: py_range.simps)

lemma stub_run:
  "image_bytes_with_size_cap exact_floats (stub_pillow 5 (\<lambda>q. 4)) stub_page 1 85 35 3 =
     ([SavePNG, EnsureRGB, SaveJPEG 85, SaveJPEG 75, SaveJPEG 65, SaveJPEG 55, SaveJPEG 45,
       SaveJPEG 35, Resize 5 10, SaveJPEG 70], Inr (replicate 4 0, ''image/jpeg''))"
  by (simp add: image_bytes_with_size_cap_def stub_pillow_def stub_page_def ensure_rgb_def
        py_range_85_34 downscale_and_encode_def downscale_scale_def exact_floats_def
        py_int_def Let_def real_sqrt_divide)


text \<open>
  A run that reaches the final step and returns a payload over the budget (4 bytes, budget 1).
\<close>

theorem capper_within_budget_or_final_step_witness:
  "image_bytes_with_size_cap exact_floats (stub_pillow 5 (\<lambda>q. 4)) stub_page 1 85 35 3 =
     ([SavePNG, EnsureRGB, SaveJPEG 85, SaveJPEG 75, SaveJPEG 65, SaveJPEG 55, SaveJPEG 45,
       SaveJPEG 35, Resize 5 10, SaveJPEG 70], Inr (replicate 4 0, ''image/jpeg''))
   \<and> \<not> int (length (replicate 4 (0 :: 8 word))) \<le> 1
   \<and> (\<exists>w h resized.
        resize_lanczos (stub_pillow 5 (\<lambda>q. 4)) (ensure_rgb (stub_pillow 5 (\<lambda>q. 4)) stub_page) w h
          = Inr resized
      \<and> save_jpeg (stub_pillow 5 (\<lambda>q. 4)) resized (max 70 35) = Inr (replicate 4 0))"
  using capper_within_budget_or_final_step [OF stub_run] stub_run by auto

text \<open>The lossless path under the configured settings.\<close>

theorem capper_lossless_preferred_witness:
  "save_png (stub_pillow 5 (\<lambda>q. 4)) stub_page = Inr (replicate 5 0)
   \<and> int (length (replicate 5 (0 :: 8 word))) \<le> MAX_IMAGE_BYTES
   \<and> image_bytes_with_size_cap exact_floats (stub_pillow 5 (\<lambda>q. 4)) stub_page MAX_IMAGE_BYTES
         JPEG_QUALITY_START MIN_JPEG_QUALITY DOWNSCALE_FLOOR_PX
       = ([SavePNG], Inr (replicate 5 0, ''image/png''))"
proof -
  have a: "save_png (stub_pillow 5 (\<lambda>q. 4)) stub_page = Inr (replicate 5 0)"
    by (simp add: stub_pillow_def)
  have b: "int (length (replicate 5 (0 :: 8 word))) \<le> MAX_IMAGE_BYTES"
    by (simp add: MAX_IMAGE_BYTES_def)
  from capper_lossless_preferred [OF a b, of exact_floats] a b show ?thesis by simp
qed


section \<open>Pipeline Orchestrator (pdf_to_markdown_full_ocr.py, lines 122-131 and 186-238)\<close>

text \<open>
  Whitespace as \<^verbatim>\<open>str.strip()\<close>, \<^verbatim>\<open>str.isspace()\<close> and the \<^verbatim>\<open>\s\<close> of a \<^verbatim>\<open>str\<close>
  pattern see it: the Unicode whitespace code points.
\<close>

definition is_space :: "nat \<Rightarrow> bool" where
  "is_space c =
     ((9 \<le> c \<and> c \<le> 13) \<or> (28 \<le> c \<and> c \<le> 32) \<or> c = 133 \<or> c = 160 \<or> c = 5760
      \<or> (8192 \<le> c \<and> c \<le> 8202) \<or> c = 8232 \<or> c = 8233 \<or> c = 8239 \<or> c = 8287
      \<or> c = 12288)"

definition str_strip :: "pystr \<Rightarrow> pystr" where
  "str_strip s = rev (dropWhile is_space (rev (dropWhile is_space s)))"

fun str_join :: "pystr \<Rightarrow> pystr list \<Rightarrow> pystr" where
  "str_join sep [] = []"
| "str_join sep [x] = x"
| "str_join sep (x # y # ys) = x @ sep @ str_join sep (y # ys)"

text \<open>\<^verbatim>\<open>str(n)\<close> for an integer: decimal digits, with a minus sign when negative.\<close>

fun digits_of :: "nat \<Rightarrow> pystr" where
  "digits_of n = (if n < 10 then [48 + n] else digits_of (n div 10) @ [48 + n mod 10])"

declare digits_of.simps [simp del]

definition str_of_int :: "int \<Rightarrow> pystr" where
  "str_of_int i = (if i < 0 then 45 # digits_of (nat (- i)) else digits_of (nat i))"

text \<open>
  What the run is given from outside: the environment variable, the client factory,
  PyMuPDF (opening the file yields the page count; rendering page \<open>i\<close> yields its
  bitmap), Pillow, the floating-point unit, base64, and the model call with its
  post-processing (\<^verbatim>\<open>extract_page_markdown\<close>). Each call may raise.
\<close>

record services =
  project_endpoint :: "pystr option"
  make_client :: "pystr \<Rightarrow> exn + unit"
  fitz_open :: "pystr \<Rightarrow> exn + nat"
  render_page :: "int \<Rightarrow> exn + image"
  codec :: pillow
  floats :: float64
  b64encode :: "bytes \<Rightarrow> pystr"
  extract_page_markdown :: "pystr \<Rightarrow> int \<Rightarrow> exn + pystr"

datatype io = OpenDoc | CloseDoc | RenderPage int | ExtractPage int

definition get_openai_client :: "services \<Rightarrow> exn + unit" where
  "get_openai_client sv =
     (case project_endpoint sv of
        None \<Rightarrow> Inl RuntimeError
      | Some ep \<Rightarrow> if ep = [] then Inl RuntimeError else make_client sv ep)"

definition page_to_capped_data_url :: "services \<Rightarrow> image \<Rightarrow> exn + pystr \<times> (int \<times> int)" where
  "page_to_capped_data_url sv pil_img =
     (case snd (image_bytes_with_size_cap (floats sv) (codec sv) pil_img MAX_IMAGE_BYTES
                  JPEG_QUALITY_START MIN_JPEG_QUALITY DOWNSCALE_FLOOR_PX) of
        Inl e \<Rightarrow> Inl e
      | Inr (blob, mime) \<Rightarrow>
          Inr (lit ''data:'' @ lit mime @ lit '';base64,'' @ b64encode sv blob,
               (width pil_img, height pil_img)))"

definition page_heading :: "int \<Rightarrow> pystr" where
  "page_heading page_num = lit ''## Page '' @ str_of_int page_num"

definition placeholder :: "int \<Rightarrow> pystr" where
  "placeholder page_num =
     page_heading page_num @ [10, 10]
       @ lit ''_Error extracting this page. Try lowering DPI or tokens and re-run._''"

text \<open>
  One iteration of the page loop (lines 210-225): the body of the \<^verbatim>\<open>try\<close>, and the
  handler that appends the placeholder on any exception.
\<close>

definition process_page :: "services \<Rightarrow> bool \<Rightarrow> int \<Rightarrow> io list \<times> pystr" where
  "process_page sv add_page_headings i =
     (let page_num = i + 1 in
      case render_page sv i of
        Inl e \<Rightarrow> ([RenderPage i], placeholder page_num)
      | Inr pil_img \<Rightarrow>
          (case page_to_capped_data_url sv pil_img of
             Inl e \<Rightarrow> ([RenderPage i], placeholder page_num)
           | Inr (data_url, wh) \<Rightarrow>
               (case extract_page_markdown sv data_url page_num of
                  Inl e \<Rightarrow> ([RenderPage i, ExtractPage page_num], placeholder page_num)
                | Inr md \<Rightarrow>
                    ([RenderPage i, ExtractPage page_num],
                     if add_page_headings
                     then str_strip (page_heading page_num @ [10, 10] @ md)
                     else md))))"

fun process_pages ::
  "services \<Rightarrow> bool \<Rightarrow> int list \<Rightarrow> io list \<Rightarrow> pystr list \<Rightarrow> io list \<times> pystr list"
where
  "process_pages sv add_page_headings [] evs sections = (evs, sections)"
| "process_pages sv add_page_headings (i # is) evs sections =
     (let (ev, fragment) = process_page sv add_page_headings i
      in process_pages sv add_page_headings is (evs @ ev) (sections @ [fragment]))"

definition range_start :: "int option \<Rightarrow> int" where
  "range_start start = (case start of None \<Rightarrow> 1 | Some v \<Rightarrow> max 1 v)"

definition range_end :: "int option \<Rightarrow> int \<Rightarrow> int" where
  "range_end endp n_pages = (case endp of None \<Rightarrow> n_pages | Some v \<Rightarrow> min v n_pages)"

definition pdf_to_markdown_full_vision ::
  "services \<Rightarrow> pystr \<Rightarrow> int option \<Rightarrow> int option \<Rightarrow> bool \<Rightarrow> io list \<times> (exn + pystr)"
where
  "pdf_to_markdown_full_vision sv pdf_path start endp add_page_headings =
     (case get_openai_client sv of
        Inl err \<Rightarrow> ([], Inl err)
      | Inr client \<Rightarrow>
          (case fitz_open sv pdf_path of
             Inl err \<Rightarrow> ([], Inl err)
           | Inr page_count \<Rightarrow>
               let n_pages = int page_count;
                   s = range_start start;
                   e = range_end endp n_pages
               in if e < s then ([OpenDoc, CloseDoc], Inl (ValueError s e n_pages))
                  else
                    let (evs, sections) =
                          process_pages sv add_page_headings (py_range (s - 1) e 1) [OpenDoc] []
                    in (evs @ [CloseDoc],
                        Inr (collapse_blank_lines (str_strip (str_join nl2 sections))))))"


text \<open>A page fails when rendering, capping or the model call raises.\<close>

definition page_fails :: "services \<Rightarrow> int \<Rightarrow> bool" where
  "page_fails sv i =
     (case render_page sv i of
        Inl e \<Rightarrow> True
      | Inr pil_img \<Rightarrow>
          (case page_to_capped_data_url sv pil_img of
             Inl e \<Rightarrow> True
           | Inr (data_url, wh) \<Rightarrow> isl (extract_page_markdown sv data_url (i + 1))))"

definition stub_services :: "nat \<Rightarrow> (int \<Rightarrow> exn + pystr) \<Rightarrow> services" where
  "stub_services n answer =
     \<lparr>project_endpoint = Some (lit ''https://example.invalid''),
      make_client = (\<lambda>ep. Inr ()),
      fitz_open = (\<lambda>path. Inr n),
      render_page = (\<lambda>i. Inr stub_page),
      codec = stub_pillow 5 (\<lambda>q. 4),
      floats = exact_floats,
      b64encode = map (\<lambda>b. 65),
      extract_page_markdown = (\<lambda>url page_num. answer page_num)\<rparr>"

definition flaky_answer :: "int \<Rightarrow> exn + pystr" where
  "flaky_answer page_num = (if page_num = 2 then Inl (ExternalError 500) else Inr (lit ''ok''))"

subsection \<open>Properties of the orchestrator\<close>

lemma py_range_step_1: "py_range a b 1 = [a..b - 1]"
proof (induction a b "1 :: int" rule: py_range.induct)
  case (1 start stop)
  show ?case
  proof (cases "start < stop")
    case True
    with 1 have "py_range (start + 1) stop 1 = [start + 1..stop - 1]" by simp
    with True show ?thesis
      by (subst py_range.simps) (simp add: upto_rec1)
  next
    case False
    then show ?thesis by (subst py_range.simps) simp
  qed
qed

lemma process_pages_sections:
  "snd (process_pages sv h idxs evs sections) =
     sections @ map (\<lambda>i. snd (process_page sv h i)) idxs"
  by (induction idxs arbitrary: evs sections) (auto simp: Let_def split: prod.splits)

lemma process_pages_events:
  "fst (process_pages sv h idxs evs sections) =
     evs @ concat (map (\<lambda>i. fst (process_page sv h i)) idxs)"
  by (induction idxs arbitrary: evs sections) (auto simp: Let_def split: prod.splits)

lemma page_fails_placeholder:
  "page_fails sv i \<Longrightarrow> snd (process_page sv h i) = placeholder (i + 1)"
  by (auto simp: page_fails_def process_page_def Let_def split: sum.splits prod.splits)

lemma full_vision_result:
  assumes "get_openai_client sv = Inr client" and "fitz_open sv pdf_path = Inr page_count"
  shows "snd (pdf_to_markdown_full_vision sv pdf_path start endp h) =
     (if range_end endp (int page_count) < range_start start
      then Inl (ValueError (range_start start) (range_end endp (int page_count)) (int page_count))
      else Inr (collapse_blank_lines (str_strip (str_join nl2
             (map (\<lambda>i. snd (process_page sv h i))
                [range_start start - 1..range_end endp (int page_count) - 1])))))"
  using assms process_pages_sections [of sv h _ "[OpenDoc]" "[]"]
  by (auto simp: pdf_to_markdown_full_vision_def Let_def py_range_step_1 split: prod.splits)
     (metis snd_conv)


lemma digits_of_last: "digits_of n \<noteq> [] \<and> last (digits_of n) = 48 + n mod 10"
  by (subst (1 2) digits_of.simps) simp

lemma digit_not_space: "\<not> is_space (48 + n mod 10)"
proof -
  have "n mod 10 < 10" by simp
  then show ?thesis unfolding is_space_def by arith
qed

lemma page_heading_ends:
  "page_heading n \<noteq> [] \<and> \<not> is_space (hd (page_heading n)) \<and> \<not> is_space (last (page_heading n))"
proof -
  have "str_of_int n \<noteq> [] \<and> \<not> is_space (last (str_of_int n))"
    using digits_of_last digit_not_space by (simp add: str_of_int_def)
  then show ?thesis
    by (simp add: page_heading_def lit_def is_space_def)
qed

lemma strip_keeps_prefix:
  assumes "h \<noteq> []" and "\<not> is_space (hd h)" and "\<not> is_space (last h)"
  shows "prefix h (str_strip (h @ x))"
proof -
  from assms have front: "dropWhile is_space (h @ x) = h @ x"
    by (cases h) simp_all
  have "\<not> is_space (hd (rev h))"
    using assms(1,3) by (simp add: hd_rev)
  with assms(1) have kept: "dropWhile is_space (rev h) = rev h"
    by (cases "rev h") simp_all
  have "\<exists>ys. dropWhile is_space (rev x @ rev h) = ys @ rev h"
  proof (cases "\<forall>y \<in> set (rev x). is_space y")
    case True
    then have "dropWhile is_space (rev x @ rev h) = [] @ rev h"
      using kept by (simp add: dropWhile_append)
    then show ?thesis by blast
  next
    case False
    then have "dropWhile is_space (rev x @ rev h) = dropWhile is_space (rev x) @ rev h"
      by (auto simp: dropWhile_append1)
    then show ?thesis by blast
  qed
  then obtain ys where "dropWhile is_space (rev x @ rev h) = ys @ rev h" ..
  then have "str_strip (h @ x) = h @ rev ys"
    by (simp add: str_strip_def front)
  then show ?thesis by simp
qed

lemma fragment_heading:
  "prefix (page_heading (i + 1)) (snd (process_page sv True i))"
proof -
  have "prefix (page_heading (i + 1)) (str_strip (page_heading (i + 1) @ [10, 10] @ md))" for md
    using page_heading_ends [of "i + 1"] by (intro strip_keeps_prefix) simp_all
  then show ?thesis
    by (auto simp: process_page_def Let_def placeholder_def split: sum.splits prod.splits)
qed

text \<open>
  C5. Once the client and the document are there and the clamped page range is not empty,
  the run returns the assembled text of a list of fragments that has exactly one fragment
  for each page of the range, in page order; the fragment of a page whose rendering,
  encoding or model call raises is the fixed placeholder text for that page number, and the
  pages after it are processed all the same.
\<close>

theorem failed_page_gets_placeholder:
  assumes "get_openai_client sv = Inr client"
    and "fitz_open sv pdf_path = Inr page_count"
    and "range_start start \<le> range_end endp (int page_count)"
  shows "\<exists>sections.
           snd (pdf_to_markdown_full_vision sv pdf_path start endp h) =
             Inr (collapse_blank_lines (str_strip (str_join nl2 sections)))
         \<and> sections = map (\<lambda>i. snd (process_page sv h i))
                         [range_start start - 1..range_end endp (int page_count) - 1]
         \<and> length sections = nat (range_end endp (int page_count) - range_start start + 1)
         \<and> (\<forall>k < length sections.
               page_fails sv (range_start start - 1 + int k)
                 \<longrightarrow> sections ! k = placeholder (range_start start + int k))"
proof -
  let ?s = "range_start start" and ?e = "range_end endp (int page_count)"
  let ?sections = "map (\<lambda>i. snd (process_page sv h i)) [?s - 1..?e - 1]"
  have out: "snd (pdf_to_markdown_full_vision sv pdf_path start endp h) =
      Inr (collapse_blank_lines (str_strip (str_join nl2 ?sections)))"
    using full_vision_result [OF assms(1,2), of start endp h] assms(3) by simp
  have len: "length ?sections = nat (?e - ?s + 1)" by simp
  have "?sections ! k = placeholder (?s + int k)"
    if "k < length ?sections" and "page_fails sv (?s - 1 + int k)" for k
  proof -
    from that(1) have "?s - 1 + int k \<le> ?e - 1" by simp
    then have "[?s - 1..?e - 1] ! k = ?s - 1 + int k" by (rule nth_upto)
    with that(1) have "?sections ! k = snd (process_page sv h (?s - 1 + int k))" by simp
    with page_fails_placeholder [OF that(2), of h] show ?thesis by simp
  qed
  with out len show ?thesis by blast
qed

text \<open>
  C8. For a 4-page document with \<open>start = 2\<close> and \<open>end = 3\<close> and page headings enabled,
  the page loop produces exactly two fragments; the first begins with \<^verbatim>\<open>## Page 2\<close>,
  the second with \<^verbatim>\<open>## Page 3\<close>, whether the pages succeed or fail.
\<close>

theorem pages_2_to_3_of_4:
  assumes "get_openai_client sv = Inr client" and "fitz_open sv pdf_path = Inr 4"
  shows "\<exists>f2 f3.
           snd (process_pages sv True (py_range (range_start (Some 2) - 1) (range_end (Some 3) 4) 1)
                  [OpenDoc] []) = [f2, f3]
         \<and> prefix (lit ''## Page 2'') f2 \<and> prefix (lit ''## Page 3'') f3
         \<and> snd (pdf_to_markdown_full_vision sv pdf_path (Some 2) (Some 3) True) =
             Inr (collapse_blank_lines (str_strip (str_join nl2 [f2, f3])))"
proof -
  let ?f2 = "snd (process_page sv True 1)" and ?f3 = "snd (process_page sv True 2)"
  have r: "range_start (Some 2) = 2" "range_end (Some 3) 4 = 3"
    by (simp_all add: range_start_def range_end_def)
  have idx: "[1..2 :: int] = [1, 2]" by (simp add: upto_rec1)
  have h2: "page_heading (1 + 1) = lit ''## Page 2''" and h3: "page_heading (2 + 1) = lit ''## Page 3''"
    by (simp_all add: page_heading_def str_of_int_def digits_of.simps lit_def)
  have secs: "snd (process_pages sv True (py_range (range_start (Some 2) - 1)
      (range_end (Some 3) 4) 1) [OpenDoc] []) = [?f2, ?f3]"
    by (subst process_pages_sections) (simp add: r py_range_step_1 idx)
  have p2: "prefix (lit ''## Page 2'') ?f2"
    using fragment_heading [of 1 sv] by (simp only: h2)
  have p3: "prefix (lit ''## Page 3'') ?f3"
    using fragment_heading [of 2 sv] by (simp only: h3)
  have out: "snd (pdf_to_markdown_full_vision sv pdf_path (Some 2) (Some 3) True) =
      Inr (collapse_blank_lines (str_strip (str_join nl2 [?f2, ?f3])))"
    using full_vision_result [OF assms, of "Some 2" "Some 3" True] by (simp add: r idx)
  from secs p2 p3 out show ?thesis by blast
qed

text \<open>
  C9. With the client and the document there, an empty clamped range (\<open>max 1 start\<close> above
  \<open>min end page_count\<close>) makes the run raise ValueError after opening and closing the
  document and before any page is rendered or sent to the model; with a non-empty range
  the run never ends in an exception, whatever the pages do.
\<close>

theorem empty_page_range_aborts:
  assumes "get_openai_client sv = Inr client"
    and "fitz_open sv pdf_path = Inr page_count"
  shows "(range_end endp (int page_count) < range_start start \<longrightarrow>
            pdf_to_markdown_full_vision sv pdf_path start endp h =
              ([OpenDoc, CloseDoc],
               Inl (ValueError (range_start start) (range_end endp (int page_count))
                      (int page_count))))
       \<and> (range_start start \<le> range_end endp (int page_count) \<longrightarrow>
            \<not> isl (snd (pdf_to_markdown_full_vision sv pdf_path start endp h)))"
proof (intro conjI impI)
  assume "range_end endp (int page_count) < range_start start"
  with assms show "pdf_to_markdown_full_vision sv pdf_path start endp h =
      ([OpenDoc, CloseDoc],
       Inl (ValueError (range_start start) (range_end endp (int page_count)) (int page_count)))"
    by (simp add: pdf_to_markdown_full_vision_def Let_def)
next
  assume "range_start start \<le> range_end endp (int page_count)"
  then show "\<not> isl (snd (pdf_to_markdown_full_vision sv pdf_path start endp h))"
    using full_vision_result [OF assms, of start endp h] by simp
qed

lemma stub_client: "get_openai_client (stub_services n answer) = Inr ()"
  by (simp add: get_openai_client_def stub_services_def lit_def)

lemma stub_open: "fitz_open (stub_services n answer) path = Inr n"
  by (simp add: stub_services_def)

text \<open>Three pages, the model call failing on page 2.\<close>

theorem failed_page_gets_placeholder_witness:
  "get_openai_client (stub_services 3 flaky_answer) = Inr ()
   \<and> fitz_open (stub_services 3 flaky_answer) [] = Inr 3
   \<and> range_start None \<le> range_end None (int 3)
   \<and> page_fails (stub_services 3 flaky_answer) 1
   \<and> (\<exists>sections.
         snd (pdf_to_markdown_full_vision (stub_services 3 flaky_answer) [] None None True) =
           Inr (collapse_blank_lines (str_strip (str_join nl2 sections)))
       \<and> length sections = 3 \<and> sections ! 1 = placeholder 2)"
proof -
  let ?sv = "stub_services 3 flaky_answer"
  have a: "get_openai_client ?sv = Inr ()" by (rule stub_client)
  have b: "fitz_open ?sv [] = Inr 3" by (rule stub_open)
  have c: "range_start None \<le> range_end None (int 3)"
    by (simp add: range_start_def range_end_def)
  have d: "page_fails ?sv 1"
    by (simp add: page_fails_def stub_services_def page_to_capped_data_url_def
        image_bytes_with_size_cap_def stub_pillow_def MAX_IMAGE_BYTES_def flaky_answer_def)
  from failed_page_gets_placeholder [OF a b c, of True] obtain sections where
    s: "snd (pdf_to_markdown_full_vision ?sv [] None None True) =
          Inr (collapse_blank_lines (str_strip (str_join nl2 sections)))"
       "length sections = nat (range_end None (int 3) - range_start None + 1)"
       "\<forall>k < length sections. page_fails ?sv (range_start None - 1 + int k)
           \<longrightarrow> sections ! k = placeholder (range_start None + int k)"
    by blast
  from s(2) have len: "length sections = 3" by (simp add: range_start_def range_end_def)
  with s(3) d have "sections ! 1 = placeholder 2"
    by (auto simp: range_start_def dest: spec [of _ 1])
  with a b c d s(1) len show ?thesis by blast
qed

text \<open>A 4-page document whose second page fails.\<close>

theorem pages_2_to_3_of_4_witness:
  "get_openai_client (stub_services 4 flaky_answer) = Inr ()
   \<and> fitz_open (stub_services 4 flaky_answer) [] = Inr 4
   \<and> (\<exists>f2 f3.
         prefix (lit ''## Page 2'') f2 \<and> prefix (lit ''## Page 3'') f3
       \<and> snd (pdf_to_markdown_full_vision (stub_services 4 flaky_answer) [] (Some 2) (Some 3) True) =
           Inr (collapse_blank_lines (str_strip (str_join nl2 [f2, f3]))))"
proof -
  let ?sv = "stub_services 4 flaky_answer"
  have a: "get_openai_client ?sv = Inr ()" by (rule stub_client)
  have b: "fitz_open ?sv [] = Inr 4" by (rule stub_open)
  from pages_2_to_3_of_4 [OF a b] a b show ?thesis by blast
qed

text \<open>Page 5 of a 4-page document is refused; pages 1-4 are processed.\<close>

theorem empty_page_range_aborts_witness:
  "get_openai_client (stub_services 4 flaky_answer) = Inr ()
   \<and> fitz_open (stub_services 4 flaky_answer) [] = Inr 4
   \<and> range_end None (int 4) < range_start (Some 5)
   \<and> pdf_to_markdown_full_vision (stub_services 4 flaky_answer) [] (Some 5) None True =
       ([OpenDoc, CloseDoc], Inl (ValueError 5 4 4))
   \<and> range_start (Some 1) \<le> range_end None (int 4)
   \<and> \<not> isl (snd (pdf_to_markdown_full_vision (stub_services 4 flaky_answer) [] (Some 1) None True))"
proof -
  let ?sv = "stub_services 4 flaky_answer"
  have a: "get_openai_client ?sv = Inr ()" by (rule stub_client)
  have b: "fitz_open ?sv [] = Inr 4" by (rule stub_open)
  have c: "range_end None (int 4) < range_start (Some 5)"
    by (simp add: range_start_def range_end_def)
  have d: "range_start (Some 1) \<le> range_end None (int 4)"
    by (simp add: range_start_def range_end_def)
  have "pdf_to_markdown_full_vision ?sv [] (Some 5) None True =
      ([OpenDoc, CloseDoc], Inl (ValueError 5 4 4))"
    using empty_page_range_aborts [OF a b, of None "Some 5" True] c
    by (simp add: range_start_def range_end_def)
  moreover have "\<not> isl (snd (pdf_to_markdown_full_vision ?sv [] (Some 1) None True))"
    using empty_page_range_aborts [OF a b, of None "Some 1" True] d by blast
  ultimately show ?thesis using a b c d by blast
qed

section \<open>Context Window Builder (pdf_to_markdown_with_image_descriptions.py, lines 30-84)\<close>

text \<open>
  \<^verbatim>\<open>s[lo:hi]\<close>: a negative index counts from the end, and both indices are clamped to
  the string.
\<close>

definition slice_index :: "nat \<Rightarrow> int \<Rightarrow> nat" where
  "slice_index n i = (if i < 0 then nat (max 0 (int n + i)) else min (nat i) n)"

definition py_slice :: "pystr \<Rightarrow> int \<Rightarrow> int \<Rightarrow> pystr" where
  "py_slice s lo hi =
     (let a = slice_index (length s) lo; b = slice_index (length s) hi
      in take (b - a) (drop a s))"

subsection \<open>The two image patterns\<close>

text \<open>
  Both patterns are sequences of literals and greedy character classes, and every class is
  followed by a literal character outside the class. Python's backtracking matcher
  therefore has one way to match at a position: each class takes the longest run. A
  negated class also matches newlines. The matchers work at the head of the text.
\<close>

definition is_alnum :: "nat \<Rightarrow> bool" where
  "is_alnum c = ((48 \<le> c \<and> c \<le> 57) \<or> (65 \<le> c \<and> c \<le> 90) \<or> (97 \<le> c \<and> c \<le> 122))"

definition is_subtype_char :: "nat \<Rightarrow> bool" where
  "is_subtype_char c = (is_alnum c \<or> c = 46 \<or> c = 43 \<or> c = 45)"

definition is_b64_char :: "nat \<Rightarrow> bool" where
  "is_b64_char c = (is_alnum c \<or> c = 43 \<or> c = 47 \<or> c = 61 \<or> c = 13 \<or> c = 10)"

definition eat :: "pystr \<Rightarrow> pystr \<Rightarrow> pystr option" where
  "eat l s = (if prefix l s then Some (drop (length l) s) else None)"

definition many1 :: "(nat \<Rightarrow> bool) \<Rightarrow> pystr \<Rightarrow> (pystr \<times> pystr) option" where
  "many1 cls s = (if takeWhile cls s = [] then None else Some (takeWhile cls s, dropWhile cls s))"

text \<open>
  \<^verbatim>\<open>IMAGE_DATAURI_PATTERN\<close>: the length of the match and group 1 (the data URL).
\<close>

definition match_datauri :: "pystr \<Rightarrow> (nat \<times> pystr) option" where
  "match_datauri s =
     (case eat (lit ''!['') s of None \<Rightarrow> None | Some r1 \<Rightarrow>
     (case eat (lit '']('') (dropWhile (\<lambda>c. c \<noteq> 93) r1) of None \<Rightarrow> None | Some r2 \<Rightarrow>
     (case eat (lit ''data:image/'') r2 of None \<Rightarrow> None | Some r3 \<Rightarrow>
     (case many1 is_subtype_char r3 of None \<Rightarrow> None | Some (subtype, r4) \<Rightarrow>
     (case eat (lit '';base64,'') r4 of None \<Rightarrow> None | Some r5 \<Rightarrow>
     (case many1 is_b64_char r5 of None \<Rightarrow> None | Some (payload, r6) \<Rightarrow>
     (case eat (lit '')'') r6 of None \<Rightarrow> None | Some rest \<Rightarrow>
        Some (length s - length rest,
              lit ''data:image/'' @ subtype @ lit '';base64,'' @ payload))))))))"

text \<open>The second pattern of \<^verbatim>\<open>strip_images_from_text\<close>: any image link.\<close>

definition match_image_link :: "pystr \<Rightarrow> nat option" where
  "match_image_link s =
     (case eat (lit ''!['') s of None \<Rightarrow> None | Some r1 \<Rightarrow>
     (case eat (lit '']('') (dropWhile (\<lambda>c. c \<noteq> 93) r1) of None \<Rightarrow> None | Some r2 \<Rightarrow>
     (case many1 (\<lambda>c. c \<noteq> 41) r2 of None \<Rightarrow> None | Some (target, r3) \<Rightarrow>
     (case eat (lit '')'') r3 of None \<Rightarrow> None | Some rest \<Rightarrow>
        Some (length s - length rest)))))"

definition match_whitespace :: "pystr \<Rightarrow> nat option" where
  "match_whitespace s = (if takeWhile is_space s = [] then None else Some (length (takeWhile is_space s)))"

text \<open>
  \<^verbatim>\<open>pattern.sub(repl, text)\<close> for a pattern that cannot match the empty string: the
  leftmost match is replaced and the scan goes on after it.
\<close>

function re_sub :: "(pystr \<Rightarrow> nat option) \<Rightarrow> pystr \<Rightarrow> pystr \<Rightarrow> pystr" where
  "re_sub m repl [] = []"
| "re_sub m repl (c # cs) =
     (case m (c # cs) of
        Some (Suc k) \<Rightarrow> repl @ re_sub m repl (drop k cs)
      | _ \<Rightarrow> c # re_sub m repl cs)"
  by pat_completeness auto
termination
  by (relation "measure (\<lambda>(m, repl, s). length s)") auto

definition strip_images_from_text :: "pystr \<Rightarrow> pystr" where
  "strip_images_from_text text =
     re_sub match_image_link (lit ''[ImageRef]'')
       (re_sub (\<lambda>s. map_option fst (match_datauri s)) (lit ''[Image]'') text)"

definition collapse_whitespace :: "pystr \<Rightarrow> pystr" where
  "collapse_whitespace text = str_strip (re_sub match_whitespace (lit '' '') text)"

record context_config =
  CONTEXT_BEFORE_CHARS :: int
  CONTEXT_AFTER_CHARS :: int
  MAX_CONTEXT_CHARS :: int

definition default_config :: context_config where
  "default_config =
     \<lparr>CONTEXT_BEFORE_CHARS = 400, CONTEXT_AFTER_CHARS = 400, MAX_CONTEXT_CHARS = 1000\<rparr>"

definition build_surrounding_context :: "context_config \<Rightarrow> pystr \<Rightarrow> int \<Rightarrow> int \<Rightarrow> pystr" where
  "build_surrounding_context cfg markdown start_idx end_idx =
     (let before_raw = py_slice markdown (max 0 (start_idx - CONTEXT_BEFORE_CHARS cfg)) start_idx;
          after_raw = py_slice markdown end_idx
                        (min (int (length markdown)) (end_idx + CONTEXT_AFTER_CHARS cfg));
          before_clean = strip_images_from_text before_raw;
          after_clean = strip_images_from_text after_raw;
          context = collapse_whitespace (before_clean @ lit '' [IMAGE LOCATION] '' @ after_clean)
      in if MAX_CONTEXT_CHARS cfg < int (length context)
         then py_slice context 0 (MAX_CONTEXT_CHARS cfg) @ [8230]
         else context)"


section \<open>Replacing images by descriptions (lines 101-196)\<close>

text \<open>
  \<^verbatim>\<open>IMAGE_DATAURI_PATTERN.finditer(markdown)\<close>: the non-overlapping matches from the left,
  each with its start offset, end offset and group 1.
\<close>

function finditer_from :: "nat \<Rightarrow> pystr \<Rightarrow> (nat \<times> nat \<times> pystr) list" where
  "finditer_from pos [] = []"
| "finditer_from pos (c # cs) =
     (case match_datauri (c # cs) of
        Some (Suc k, data_url) \<Rightarrow>
          (pos, pos + Suc k, data_url) # finditer_from (pos + Suc k) (drop k cs)
      | _ \<Rightarrow> finditer_from (Suc pos) cs)"
  by pat_completeness auto
termination
  by (relation "measure (\<lambda>(pos, s). length s)") auto

definition finditer :: "pystr \<Rightarrow> (nat \<times> nat \<times> pystr) list" where
  "finditer markdown = finditer_from 0 markdown"

text \<open>
  The model client: the chat completion for a data URL and a context returns the message
  content (possibly \<^verbatim>\<open>None\<close>) or raises.
\<close>

type_synonym client = "pystr \<Rightarrow> pystr \<Rightarrow> exn + pystr option"

definition describe_image :: "client \<Rightarrow> pystr \<Rightarrow> pystr \<Rightarrow> exn + pystr" where
  "describe_image client data_url surrounding_context =
     (case client data_url surrounding_context of
        Inl e \<Rightarrow> Inl e
      | Inr content \<Rightarrow> Inr (str_strip (case content of None \<Rightarrow> [] | Some t \<Rightarrow> t)))"

definition replacement_for :: "context_config \<Rightarrow> pystr \<Rightarrow> client option \<Rightarrow> nat \<times> nat \<times> pystr \<Rightarrow> pystr" where
  "replacement_for cfg markdown client m =
     (case m of (start, stop, data_url) \<Rightarrow>
        let context = build_surrounding_context cfg markdown (int start) (int stop);
            desc = (case client of
                      Some c \<Rightarrow> (case describe_image c data_url context of
                                   Inl e \<Rightarrow> []
                                 | Inr d \<Rightarrow> d)
                    | None \<Rightarrow> [])
        in if desc \<noteq> [] then lit ''> Image: '' @ desc @ [10, 10]
           else lit ''> Image: [description unavailable]'' @ [10, 10])"

fun replace_loop ::
  "context_config \<Rightarrow> pystr \<Rightarrow> client option \<Rightarrow> (nat \<times> nat \<times> pystr) list \<Rightarrow> pystr list \<Rightarrow> nat
     \<Rightarrow> pystr list \<times> nat"
where
  "replace_loop cfg markdown client [] parts last_end = (parts, last_end)"
| "replace_loop cfg markdown client (m # ms) parts last_end =
     replace_loop cfg markdown client ms
       (parts @ [py_slice markdown (int last_end) (int (fst m)),
                 replacement_for cfg markdown client m])
       (fst (snd m))"

definition replace_images_with_text :: "context_config \<Rightarrow> pystr \<Rightarrow> client option \<Rightarrow> pystr" where
  "replace_images_with_text cfg markdown client =
     (let all_matches = finditer markdown in
      if length all_matches = 0 then markdown
      else
        (case replace_loop cfg markdown client all_matches [] 0 of
           (parts, last_end) \<Rightarrow> concat (parts @ [drop last_end markdown])))"

text \<open>Two concrete documents.\<close>

definition leaky_markdown :: pystr where
  "leaky_markdown =
     lit ''!![](x)(data:image/png;base64,QUJD) see ![fig](data:image/png;base64,AAAA) end''"

definition crowded_markdown :: pystr where
  "crowded_markdown =
     concat (replicate 50 (lit ''![](abc)'')) @ lit ''![fig](data:image/png;base64,AAAA)''
       @ concat (replicate 50 (lit ''![](abc)''))"

text \<open>
  The text between the matches, for stating what \<^verbatim>\<open>replace_images_with_text\<close> keeps:
  the gaps before, between and after the given spans, and the text that alternates gaps
  with blocks.
\<close>

fun gaps_of :: "pystr \<Rightarrow> nat \<Rightarrow> (nat \<times> nat \<times> pystr) list \<Rightarrow> pystr list" where
  "gaps_of markdown last_end [] = [drop last_end markdown]"
| "gaps_of markdown last_end (m # ms) =
     take (fst m - last_end) (drop last_end markdown) # gaps_of markdown (fst (snd m)) ms"

fun interleave :: "pystr list \<Rightarrow> pystr list \<Rightarrow> pystr" where
  "interleave (g # gs) (b # bs) = g @ b @ interleave gs bs"
| "interleave gs [] = concat gs"
| "interleave [] bs = concat bs"

fun spans_ok :: "nat \<Rightarrow> nat \<Rightarrow> (nat \<times> nat \<times> pystr) list \<Rightarrow> bool" where
  "spans_ok lo hi [] = (lo \<le> hi)"
| "spans_ok lo hi (m # ms) =
     (lo \<le> fst m \<and> fst m < fst (snd m) \<and> fst (snd m) \<le> hi \<and> spans_ok (fst (snd m)) hi ms)"

subsection \<open>Evaluating the matchers on concrete text\<close>

lemma length_lit: "length (lit s) = length s"
  by (simp add: lit_def)

lemma match_datauri_other: "c \<noteq> 33 \<Longrightarrow> match_datauri (c # cs) = None"
  by (simp add: match_datauri_def eat_def lit_def)

lemma match_image_link_other: "c \<noteq> 33 \<Longrightarrow> match_image_link (c # cs) = None"
  by (simp add: match_image_link_def eat_def lit_def)

lemmas match_datauri_bang = match_datauri_def [of "33 # cs"] for cs

lemmas match_image_link_bang = match_image_link_def [of "33 # cs"] for cs

lemmas eval_simps = lit_def match_datauri_other match_image_link_other match_datauri_bang
  match_image_link_bang eat_def many1_def is_subtype_char_def is_b64_char_def is_alnum_def
  match_whitespace_def is_space_def

lemma str_strip_trimmed:
  assumes "s \<noteq> []" and "\<not> is_space (hd s)" and "\<not> is_space (last s)"
  shows "str_strip s = s"
proof -
  from assms have front: "dropWhile is_space s = s" by (cases s) simp_all
  from assms have "\<not> is_space (hd (rev s))" by (simp add: hd_rev)
  with assms(1) have "dropWhile is_space (rev s) = rev s" by (cases "rev s") simp_all
  with front show ?thesis by (simp add: str_strip_def)
qed

lemma finditer_leaky:
  "finditer leaky_markdown = [(40, 74, lit ''data:image/png;base64,AAAA'')]"
  by (simp add: finditer_def leaky_markdown_def eval_simps)

lemma context_leaky:
  "build_surrounding_context default_config leaky_markdown 40 74
     = lit ''![ImageRef](data:image/png;base64,QUJD) see [IMAGE LOCATION] end''"
  by (simp add: build_surrounding_context_def default_config_def leaky_markdown_def
     py_slice_def slice_index_def strip_images_from_text_def collapse_whitespace_def
     str_strip_trimmed eval_simps)


subsection \<open>Properties of image replacement\<close>

lemma py_slice_nat:
  "a \<le> b \<Longrightarrow> b \<le> length s \<Longrightarrow> py_slice s (int a) (int b) = take (b - a) (drop a s)"
  by (simp add: py_slice_def slice_index_def)

lemma eat_length: "eat l s = Some r \<Longrightarrow> length r \<le> length s"
  by (auto simp: eat_def split: if_splits)

lemma match_datauri_length: "match_datauri s = Some (n, u) \<Longrightarrow> n \<le> length s"
  by (auto simp: match_datauri_def split: option.splits)

lemma spans_ok_lower: "spans_ok lo hi ms \<Longrightarrow> lo' \<le> lo \<Longrightarrow> spans_ok lo' hi ms"
  by (cases ms) auto

lemma finditer_from_spans: "spans_ok pos (pos + length s) (finditer_from pos s)"
proof (induction pos s rule: finditer_from.induct)
  case (1 pos)
  show ?case by simp
next
  case (2 pos c cs)
  show ?case
  proof (cases "match_datauri (c # cs)")
    case None
    from "2.IH"(1) [OF None] have "spans_ok pos (pos + length (c # cs)) (finditer_from (Suc pos) cs)"
      by (auto intro: spans_ok_lower)
    with None show ?thesis by simp
  next
    case (Some r)
    obtain n u where r: "r = (n, u)" by (cases r)
    show ?thesis
    proof (cases n)
      case 0
      from "2.IH"(2) [OF Some r [symmetric] 0]
      have "spans_ok pos (pos + length (c # cs)) (finditer_from (Suc pos) cs)"
        by (auto intro: spans_ok_lower)
      with Some r 0 show ?thesis by simp
    next
      case (Suc k)
      from Some r have "n \<le> length (c # cs)" by (auto dest: match_datauri_length)
      with Suc have k: "k \<le> length cs" by simp
      from "2.IH"(3) [OF Some r [symmetric] Suc]
      have "spans_ok (pos + Suc k) (pos + Suc k + length (drop k cs))
              (finditer_from (pos + Suc k) (drop k cs))" by simp
      moreover from k have "pos + Suc k + length (drop k cs) = pos + length (c # cs)" by simp
      ultimately show ?thesis using Some r Suc k by simp
    qed
  qed
qed

lemma finditer_from_matches:
  "m \<in> set (finditer_from pos s) \<Longrightarrow>
     pos \<le> fst m \<and> match_datauri (drop (fst m - pos) s) = Some (fst (snd m) - fst m, snd (snd m))"
proof (induction pos s rule: finditer_from.induct)
  case (1 pos)
  then show ?case by simp
next
  case (2 pos c cs)
  have step: "pos \<le> fst m \<and>
      match_datauri (drop (fst m - pos) (c # cs)) = Some (fst (snd m) - fst m, snd (snd m))"
    if "Suc pos \<le> fst m \<and>
      match_datauri (drop (fst m - Suc pos) cs) = Some (fst (snd m) - fst m, snd (snd m))"
  proof -
    from that have "fst m - pos = Suc (fst m - Suc pos)" by arith
    then have "drop (fst m - pos) (c # cs) = drop (fst m - Suc pos) cs" by simp
    with that show ?thesis by simp
  qed
  show ?case
  proof (cases "match_datauri (c # cs)")
    case None
    with "2.prems" have "m \<in> set (finditer_from (Suc pos) cs)" by simp
    from "2.IH"(1) [OF None this] show ?thesis by (rule step)
  next
    case (Some r)
    obtain n u where r: "r = (n, u)" by (cases r)
    show ?thesis
    proof (cases n)
      case 0
      with Some r "2.prems" have "m \<in> set (finditer_from (Suc pos) cs)" by simp
      from "2.IH"(2) [OF Some r [symmetric] 0 this] show ?thesis by (rule step)
    next
      case (Suc k)
      with Some r "2.prems" consider (here) "m = (pos, pos + Suc k, u)"
        | (later) "m \<in> set (finditer_from (pos + Suc k) (drop k cs))" by auto
      then show ?thesis
      proof cases
        case here
        with Some r Suc show ?thesis by simp
      next
        case later
        note ih = "2.IH"(3) [OF Some r [symmetric] Suc later]
        from ih have le: "pos + Suc k \<le> fst m" by (rule conjunct1)
        from ih have mt: "match_datauri (drop (fst m - (pos + Suc k)) (drop k cs))
                     = Some (fst (snd m) - fst m, snd (snd m))" by (rule conjunct2)
        have dr: "drop (fst m - pos) (c # cs) = drop (fst m - (pos + Suc k)) (drop k cs)"
        proof -
          from le have "fst m - pos = Suc (fst m - (pos + Suc k) + k)" by arith
          then show ?thesis by (simp add: add.commute)
        qed
        from le have "pos \<le> fst m" by arith
        moreover from mt have "match_datauri (drop (fst m - pos) (c # cs))
            = Some (fst (snd m) - fst m, snd (snd m))" by (simp only: dr)
        ultimately show ?thesis by (rule conjI)
      qed
    qed
  qed
qed


lemma spans_ok_bound: "spans_ok lo hi ms \<Longrightarrow> lo \<le> hi"
  by (cases ms) auto

lemma drop_split:
  assumes "a \<le> b"
  shows "drop a s = take (b - a) (drop a s) @ drop b s"
proof -
  have "take (b - a) (drop a s) @ drop (b - a) (drop a s) = drop a s"
    by (rule append_take_drop_id)
  moreover from assms have "drop (b - a) (drop a s) = drop b s" by simp
  ultimately show ?thesis by simp
qed

lemma replace_loop_concat:
  "spans_ok last_end (length markdown) ms \<Longrightarrow>
   (case replace_loop cfg markdown client ms parts last_end of
      (ps, l) \<Rightarrow> concat (ps @ [drop l markdown])) =
   concat parts @ interleave (gaps_of markdown last_end ms)
                   (map (replacement_for cfg markdown client) ms)"
proof (induction ms arbitrary: parts last_end)
  case Nil
  show ?case by simp
next
  case (Cons m ms)
  from Cons.prems have le: "last_end \<le> fst m" "fst m \<le> length markdown"
    and rest: "spans_ok (fst (snd m)) (length markdown) ms" by auto
  from le have sl: "py_slice markdown (int last_end) (int (fst m)) =
      take (fst m - last_end) (drop last_end markdown)" by (rule py_slice_nat)
  show ?case using Cons.IH [OF rest] by (simp add: sl)
qed

lemma gaps_partition:
  "spans_ok last_end (length markdown) ms \<Longrightarrow>
   drop last_end markdown =
     interleave (gaps_of markdown last_end ms)
       (map (\<lambda>m. py_slice markdown (int (fst m)) (int (fst (snd m)))) ms)"
proof (induction ms arbitrary: last_end)
  case Nil
  show ?case by simp
next
  case (Cons m ms)
  from Cons.prems have le: "last_end \<le> fst m" "fst m \<le> fst (snd m)"
    "fst (snd m) \<le> length markdown"
    and rest: "spans_ok (fst (snd m)) (length markdown) ms" by auto
  from le have sl: "py_slice markdown (int (fst m)) (int (fst (snd m))) =
      take (fst (snd m) - fst m) (drop (fst m) markdown)" by (intro py_slice_nat)
  have "drop last_end markdown =
      take (fst m - last_end) (drop last_end markdown) @ drop (fst m) markdown"
    using le(1) by (rule drop_split)
  also have "drop (fst m) markdown =
      take (fst (snd m) - fst m) (drop (fst m) markdown) @ drop (fst (snd m)) markdown"
    using le(2) by (rule drop_split)
  also note Cons.IH [OF rest]
  finally show ?case by (simp add: sl)
qed

lemma length_gaps_of: "length (gaps_of markdown last_end ms) = length ms + 1"
  by (induction ms arbitrary: last_end) simp_all

lemma replacement_for_shape:
  "replacement_for cfg markdown client m = lit ''> Image: [description unavailable]'' @ [10, 10]
   \<or> (\<exists>desc. desc \<noteq> [] \<and> replacement_for cfg markdown client m = lit ''> Image: '' @ desc @ [10, 10])"
  by (cases m) (auto simp: replacement_for_def Let_def)


lemma eat_shorter: "eat l s = Some r \<Longrightarrow> length r + length l = length s"
  by (auto simp: eat_def prefix_def split: if_splits)

lemma many1_length: "many1 cls s = Some (x, r) \<Longrightarrow> length r \<le> length s"
  by (auto simp: many1_def length_dropWhile_le split: if_splits)

lemma match_datauri_SomeD:
  "match_datauri s = Some (n, u) \<Longrightarrow>
   \<exists>r1 r2 r3 sub r4 r5 pay r6 rest.
       eat (lit ''!['') s = Some r1
     \<and> eat (lit '']('') (dropWhile (\<lambda>c. c \<noteq> 93) r1) = Some r2
     \<and> eat (lit ''data:image/'') r2 = Some r3
     \<and> many1 is_subtype_char r3 = Some (sub, r4)
     \<and> eat (lit '';base64,'') r4 = Some r5
     \<and> many1 is_b64_char r5 = Some (pay, r6)
     \<and> eat (lit '')'') r6 = Some rest
     \<and> n = length s - length rest"
  unfolding match_datauri_def by (simp split: option.splits prod.splits)

lemma match_datauri_nonempty:
  assumes "match_datauri s = Some (n, u)"
  shows "0 < n"
proof -
  from match_datauri_SomeD [OF assms] obtain r1 r2 r3 sub r4 r5 pay r6 rest where
    e1: "eat (lit ''!['') s = Some r1"
    and e2: "eat (lit '']('') (dropWhile (\<lambda>c. c \<noteq> 93) r1) = Some r2"
    and e3: "eat (lit ''data:image/'') r2 = Some r3"
    and e4: "many1 is_subtype_char r3 = Some (sub, r4)"
    and e5: "eat (lit '';base64,'') r4 = Some r5"
    and e6: "many1 is_b64_char r5 = Some (pay, r6)"
    and e7: "eat (lit '')'') r6 = Some rest"
    and n: "n = length s - length rest"
    by blast
  have "length (dropWhile (\<lambda>c. c \<noteq> 93) r1) \<le> length r1" by (rule length_dropWhile_le)
  with eat_shorter [OF e1] eat_length [OF e2] eat_length [OF e3] many1_length [OF e4]
    eat_length [OF e5] many1_length [OF e6] eat_length [OF e7]
  have "length rest + 2 \<le> length s" by (simp add: length_lit)
  with n show ?thesis by simp
qed

lemma finditer_from_gaps:
  "pos \<le> p \<Longrightarrow> p < pos + length s \<Longrightarrow>
   \<forall>m \<in> set (finditer_from pos s). \<not> (fst m \<le> p \<and> p < fst (snd m)) \<Longrightarrow>
   match_datauri (drop (p - pos) s) = None"
proof (induction pos s rule: finditer_from.induct)
  case (1 pos)
  then show ?case by simp
next
  case (2 pos c cs)
  have step: "match_datauri (drop (p - pos) (c # cs)) = None"
    if "Suc pos \<le> p" and "match_datauri (drop (p - Suc pos) cs) = None"
  proof -
    from that(1) have "p - pos = Suc (p - Suc pos)" by arith
    then have "drop (p - pos) (c # cs) = drop (p - Suc pos) cs" by simp
    with that(2) show ?thesis by simp
  qed
  show ?case
  proof (cases "match_datauri (c # cs)")
    case None
    show ?thesis
    proof (cases "p = pos")
      case True
      with None show ?thesis by simp
    next
      case False
      with "2.prems" have p: "Suc pos \<le> p" "p < Suc pos + length cs" by simp_all
      from "2.prems"(3) None
      have "\<forall>m \<in> set (finditer_from (Suc pos) cs). \<not> (fst m \<le> p \<and> p < fst (snd m))" by simp
      from "2.IH"(1) [OF None p this] p(1) show ?thesis by (intro step)
    qed
  next
    case (Some r)
    obtain n u where r: "r = (n, u)" by (cases r)
    from Some r have "0 < n" by (auto dest: match_datauri_nonempty)
    then obtain k where Suc: "n = Suc k" by (cases n) auto
    from Some r have "n \<le> length (c # cs)" by (auto dest: match_datauri_length)
    with Suc have k: "k \<le> length cs" by simp
    from "2.prems"(3) Some r Suc
    have out: "\<not> (pos \<le> p \<and> p < pos + Suc k)"
      and later: "\<forall>m \<in> set (finditer_from (pos + Suc k) (drop k cs)).
                   \<not> (fst m \<le> p \<and> p < fst (snd m))" by simp_all
    from out "2.prems"(1) have le: "pos + Suc k \<le> p" by arith
    from "2.prems"(2) k have lt: "p < pos + Suc k + length (drop k cs)" by simp
    note ih = "2.IH"(3) [OF Some r [symmetric] Suc le lt later]
    have "drop (p - pos) (c # cs) = drop (p - (pos + Suc k)) (drop k cs)"
    proof -
      from le have "p - pos = Suc (p - (pos + Suc k) + k)" by arith
      then show ?thesis by (simp add: add.commute)
    qed
    with ih show ?thesis by (simp only:)
  qed
qed

text \<open>
  C10. \<^verbatim>\<open>replace_images_with_text\<close> changes the text only at the matches that
  \<^verbatim>\<open>finditer\<close> reports: the input is the gaps alternating with the matched markers, and
  the output is the same gaps, unchanged and in the same order, alternating with one block
  per match, each block a description block or the fixed
  \<^verbatim>\<open>[description unavailable]\<close> block. Every reported span is a match of the data-URI
  pattern at its offset, no offset outside the spans starts a match, and a text without
  a match is returned unchanged.
\<close>

theorem replace_images_frame:
  "\<exists>gaps blocks.
      length gaps = length (finditer markdown) + 1
    \<and> length blocks = length (finditer markdown)
    \<and> markdown = interleave gaps
        (map (\<lambda>m. py_slice markdown (int (fst m)) (int (fst (snd m)))) (finditer markdown))
    \<and> replace_images_with_text cfg markdown client = interleave gaps blocks
    \<and> (\<forall>b \<in> set blocks.
          b = lit ''> Image: [description unavailable]'' @ [10, 10]
          \<or> (\<exists>desc. desc \<noteq> [] \<and> b = lit ''> Image: '' @ desc @ [10, 10]))
    \<and> (\<forall>m \<in> set (finditer markdown).
          match_datauri (drop (fst m) markdown) = Some (fst (snd m) - fst m, snd (snd m)))
    \<and> (\<forall>p < length markdown.
          (\<forall>m \<in> set (finditer markdown). \<not> (fst m \<le> p \<and> p < fst (snd m)))
            \<longrightarrow> match_datauri (drop p markdown) = None)
    \<and> (finditer markdown = [] \<longrightarrow> replace_images_with_text cfg markdown client = markdown)"
proof -
  let ?ms = "finditer markdown"
  let ?gaps = "gaps_of markdown 0 ?ms"
  let ?blocks = "map (replacement_for cfg markdown client) ?ms"
  have ok: "spans_ok 0 (length markdown) ?ms"
    using finditer_from_spans [of 0 markdown] by (simp add: finditer_def)
  have part: "markdown = interleave ?gaps
      (map (\<lambda>m. py_slice markdown (int (fst m)) (int (fst (snd m)))) ?ms)"
    using gaps_partition [OF ok] by simp
  have out: "replace_images_with_text cfg markdown client = interleave ?gaps ?blocks"
  proof (cases "?ms = []")
    case True
    then show ?thesis by (simp add: replace_images_with_text_def)
  next
    case False
    then show ?thesis
      using replace_loop_concat [OF ok, of cfg client "[]"]
      by (simp add: replace_images_with_text_def Let_def)
  qed
  have shape: "\<forall>b \<in> set ?blocks.
      b = lit ''> Image: [description unavailable]'' @ [10, 10]
      \<or> (\<exists>desc. desc \<noteq> [] \<and> b = lit ''> Image: '' @ desc @ [10, 10])"
    using replacement_for_shape by auto
  have real: "\<forall>m \<in> set ?ms.
      match_datauri (drop (fst m) markdown) = Some (fst (snd m) - fst m, snd (snd m))"
    using finditer_from_matches [of _ 0 markdown] by (simp add: finditer_def)
  have all: "\<forall>p < length markdown.
      (\<forall>m \<in> set ?ms. \<not> (fst m \<le> p \<and> p < fst (snd m)))
        \<longrightarrow> match_datauri (drop p markdown) = None"
    using finditer_from_gaps [of 0 _ markdown] by (simp add: finditer_def)
  have none: "?ms = [] \<longrightarrow> replace_images_with_text cfg markdown client = markdown"
    by (simp add: replace_images_with_text_def)
  have "length ?gaps = length ?ms + 1" by (rule length_gaps_of)
  moreover have "length ?blocks = length ?ms" by simp
  ultimately show ?thesis using part out shape real all none by blast
qed

text \<open>A document with one embedded image and no client.\<close>

theorem replace_images_frame_witness:
  "finditer leaky_markdown \<noteq> []
   \<and> (\<exists>gaps blocks.
         length gaps = 2 \<and> length blocks = 1
       \<and> leaky_markdown = interleave gaps [py_slice leaky_markdown 40 74]
       \<and> replace_images_with_text default_config leaky_markdown None = interleave gaps blocks
       \<and> (\<forall>b \<in> set blocks.
             b = lit ''> Image: [description unavailable]'' @ [10, 10]
             \<or> (\<exists>desc. desc \<noteq> [] \<and> b = lit ''> Image: '' @ desc @ [10, 10])))
   \<and> match_datauri (drop 40 leaky_markdown) = Some (34, lit ''data:image/png;base64,AAAA'')
   \<and> match_datauri (drop 1 leaky_markdown) = None"
proof -
  have len: "(1 :: nat) < length leaky_markdown"
    by (simp add: leaky_markdown_def length_lit)
  from replace_images_frame [of leaky_markdown default_config None] len show ?thesis
    by (auto simp: finditer_leaky numeral_2_eq_2)
qed

text \<open>
  C4. The claim that the returned context never contains a match of the data-URI pattern
  fails: the second substitution of \<^verbatim>\<open>strip_images_from_text\<close> can complete a marker.
  In the document below the span 40..74 is the one embedded image; the text before it has
  no data-URI marker, yet the context built for the span begins with one, payload
  included.
\<close>

theorem context_keeps_created_marker:
  "finditer leaky_markdown = [(40, 74, lit ''data:image/png;base64,AAAA'')]
   \<and> build_surrounding_context default_config leaky_markdown 40 74
       = lit ''![ImageRef](data:image/png;base64,QUJD) see [IMAGE LOCATION] end''
   \<and> match_datauri (build_surrounding_context default_config leaky_markdown 40 74)
       = Some (39, lit ''data:image/png;base64,QUJD'')"
proof -
  have "match_datauri (lit ''![ImageRef](data:image/png;base64,QUJD) see [IMAGE LOCATION] end'')
      = Some (39, lit ''data:image/png;base64,QUJD'')"
    by (simp add: eval_simps)
  with finditer_leaky context_leaky show ?thesis by simp
qed


subsection \<open>A context over the cap under the default configuration\<close>

lemma datauri_sub_skips_link:
  "re_sub (\<lambda>s. map_option fst (match_datauri s)) r (lit ''![](abc)'' @ t) =
     lit ''![](abc)'' @ re_sub (\<lambda>s. map_option fst (match_datauri s)) r t"
  by (simp add: eval_simps)

lemma datauri_sub_skips_links:
  "re_sub (\<lambda>s. map_option fst (match_datauri s)) r (concat (replicate n (lit ''![](abc)'')) @ t) =
     concat (replicate n (lit ''![](abc)'')) @ re_sub (\<lambda>s. map_option fst (match_datauri s)) r t"
  by (induction n) (simp_all add: datauri_sub_skips_link)

lemma link_sub_replaces_link:
  "re_sub match_image_link r (lit ''![](abc)'' @ t) = r @ re_sub match_image_link r t"
  by (simp add: eval_simps)

lemma link_sub_replaces_links:
  "re_sub match_image_link r (concat (replicate n (lit ''![](abc)'')) @ t) =
     concat (replicate n r) @ re_sub match_image_link r t"
  by (induction n) (simp_all add: link_sub_replaces_link)

lemma strip_images_links:
  "strip_images_from_text (concat (replicate n (lit ''![](abc)''))) =
     concat (replicate n (lit ''[ImageRef]''))"
  using datauri_sub_skips_links [of "lit ''[Image]''" n "[]"]
    link_sub_replaces_links [of "lit ''[ImageRef]''" n "[]"]
  by (simp add: strip_images_from_text_def)

lemma whitespace_sub_skips:
  "\<forall>c \<in> set xs. \<not> is_space c \<Longrightarrow>
   re_sub match_whitespace r (xs @ ys) = xs @ re_sub match_whitespace r ys"
  by (induction xs) (simp_all add: match_whitespace_def)

lemma whitespace_sub_single:
  "\<forall>c \<in> set ys. \<not> is_space c \<Longrightarrow> ys \<noteq> [] \<Longrightarrow>
   re_sub match_whitespace [32] (32 # ys @ zs) = 32 # ys @ re_sub match_whitespace [32] zs"
proof -
  assume a: "\<forall>c \<in> set ys. \<not> is_space c" "ys \<noteq> []"
  then have "takeWhile is_space (ys @ zs) = []" by (cases ys) simp_all
  then have "re_sub match_whitespace [32] (32 # ys @ zs) = 32 # re_sub match_whitespace [32] (ys @ zs)"
    by (simp add: match_whitespace_def is_space_def)
  with a(1) show ?thesis by (simp add: whitespace_sub_skips)
qed

lemma refs_no_space: "\<forall>c \<in> set (concat (replicate n (lit ''[ImageRef]''))). \<not> is_space c"
  by (auto simp: lit_def is_space_def)

lemma refs_length: "length (concat (replicate n (lit ''[ImageRef]''))) = 10 * n"
  by (induction n) (simp_all add: lit_def)

lemma links_length: "length (concat (replicate n (lit ''![](abc)''))) = 8 * n"
  by (induction n) (simp_all add: lit_def)

lemma collapse_wrapped:
  assumes ne: "refs \<noteq> []" and ns: "\<forall>c \<in> set refs. \<not> is_space c"
  shows "collapse_whitespace (refs @ lit '' [IMAGE LOCATION] '' @ refs) =
         refs @ lit '' [IMAGE LOCATION] '' @ refs"
proof -
  let ?ctx = "refs @ lit '' [IMAGE LOCATION] '' @ refs"
  have mid: "lit '' [IMAGE LOCATION] '' @ refs =
      32 # lit ''[IMAGE'' @ 32 # lit ''LOCATION]'' @ 32 # refs @ []"
    by (simp add: lit_def)
  have w1: "\<forall>c \<in> set (lit ''[IMAGE''). \<not> is_space c" "lit ''[IMAGE'' \<noteq> []"
    and w2: "\<forall>c \<in> set (lit ''LOCATION]''). \<not> is_space c" "lit ''LOCATION]'' \<noteq> []"
    by (simp_all add: lit_def is_space_def)
  have "re_sub match_whitespace [32] ?ctx =
      refs @ re_sub match_whitespace [32] (lit '' [IMAGE LOCATION] '' @ refs)"
    using ns by (rule whitespace_sub_skips)
  also have "re_sub match_whitespace [32] (lit '' [IMAGE LOCATION] '' @ refs) =
      lit '' [IMAGE LOCATION] '' @ refs"
    unfolding mid
    by (simp only: whitespace_sub_single [OF w1] whitespace_sub_single [OF w2]
          whitespace_sub_single [OF ns ne] re_sub.simps(1))
  finally have sub: "re_sub match_whitespace (lit '' '') ?ctx = ?ctx"
    by (simp add: lit_def)
  from ne have "hd ?ctx = hd refs" by simp
  with ne ns have h: "\<not> is_space (hd ?ctx)" by (metis hd_in_set)
  from ne have "last ?ctx = last refs" by simp
  with ne ns have l: "\<not> is_space (last ?ctx)" by (metis last_in_set)
  from ne h l have "str_strip ?ctx = ?ctx"
    by (intro str_strip_trimmed) simp_all
  with sub show ?thesis by (simp add: collapse_whitespace_def)
qed

lemma truncated_length:
  "0 \<le> m \<Longrightarrow> m < int (length s) \<Longrightarrow> length (py_slice s 0 m @ [8230]) = nat m + 1"
  by (simp add: py_slice_def slice_index_def)


lemma finditer_skips_link:
  "finditer_from pos (lit ''![](abc)'' @ t) = finditer_from (pos + 8) t"
proof -
  have eq: "pos + 8 = Suc (Suc (Suc (Suc (Suc (Suc (Suc (Suc pos)))))))" by simp
  show ?thesis unfolding eq by (simp add: eval_simps)
qed

lemma finditer_skips_links:
  "finditer_from pos (concat (replicate n (lit ''![](abc)'')) @ t) = finditer_from (pos + 8 * n) t"
  by (induction n arbitrary: pos) (simp_all add: finditer_skips_link add.assoc)

lemma finditer_marker:
  "finditer_from 400 (lit ''![fig](data:image/png;base64,AAAA)'' @ t) =
     (400, 434, lit ''data:image/png;base64,AAAA'') # finditer_from 434 t"
  by (simp add: eval_simps)

lemma context_truncated:
  assumes "strip_images_from_text
             (py_slice markdown (max 0 (start_idx - CONTEXT_BEFORE_CHARS cfg)) start_idx) = b"
    and "strip_images_from_text
           (py_slice markdown end_idx
              (min (int (length markdown)) (end_idx + CONTEXT_AFTER_CHARS cfg))) = a"
    and "collapse_whitespace (b @ lit '' [IMAGE LOCATION] '' @ a) = c"
    and "MAX_CONTEXT_CHARS cfg < int (length c)"
  shows "build_surrounding_context cfg markdown start_idx end_idx =
           py_slice c 0 (MAX_CONTEXT_CHARS cfg) @ [8230]"
  using assms by (simp add: build_surrounding_context_def Let_def)

lemma context_crowded:
  "build_surrounding_context default_config crowded_markdown 400 434 =
     py_slice (concat (replicate 50 (lit ''[ImageRef]'')) @ lit '' [IMAGE LOCATION] ''
               @ concat (replicate 50 (lit ''[ImageRef]''))) 0 1000 @ [8230]"
proof -
  let ?links = "concat (replicate 50 (lit ''![](abc)''))"
  let ?refs = "concat (replicate 50 (lit ''[ImageRef]''))"
  let ?marker = "lit ''![fig](data:image/png;base64,AAAA)''"
  have len: "length ?links = 400" by (simp add: links_length)
  have mlen: "length ?marker = 34" by (simp add: lit_def)
  have "py_slice crowded_markdown (max 0 (400 - CONTEXT_BEFORE_CHARS default_config)) 400 = ?links"
    by (simp add: py_slice_def slice_index_def crowded_markdown_def len mlen default_config_def)
  then have before: "strip_images_from_text
      (py_slice crowded_markdown (max 0 (400 - CONTEXT_BEFORE_CHARS default_config)) 400) = ?refs"
    by (simp only: strip_images_links)
  have "py_slice crowded_markdown 434
      (min (int (length crowded_markdown)) (434 + CONTEXT_AFTER_CHARS default_config)) = ?links"
    by (simp add: py_slice_def slice_index_def crowded_markdown_def len mlen default_config_def)
  then have after: "strip_images_from_text (py_slice crowded_markdown 434
      (min (int (length crowded_markdown)) (434 + CONTEXT_AFTER_CHARS default_config))) = ?refs"
    by (simp only: strip_images_links)
  have refs: "?refs \<noteq> []" using refs_length [of 50] by auto
  have ctx: "collapse_whitespace (?refs @ lit '' [IMAGE LOCATION] '' @ ?refs) =
      ?refs @ lit '' [IMAGE LOCATION] '' @ ?refs"
    using refs refs_no_space by (rule collapse_wrapped)
  have big: "MAX_CONTEXT_CHARS default_config
      < int (length (?refs @ lit '' [IMAGE LOCATION] '' @ ?refs))"
    by (simp add: refs_length length_lit default_config_def)
  have "MAX_CONTEXT_CHARS default_config = 1000" by (simp add: default_config_def)
  with context_truncated [OF before after ctx big] show ?thesis by simp
qed


lemma capped_length:
  "0 \<le> m \<Longrightarrow>
   int (length (if m < int (length c) then py_slice c 0 m @ [8230] else c)) \<le> m + 1"
  by (simp add: py_slice_def slice_index_def)

lemma context_length_bound:
  assumes "0 \<le> MAX_CONTEXT_CHARS cfg"
  shows "int (length (build_surrounding_context cfg markdown start_idx end_idx))
           \<le> MAX_CONTEXT_CHARS cfg + 1"
  unfolding build_surrounding_context_def Let_def using assms by (rule capped_length)

text \<open>
  C3. The claim that the returned context is never longer than \<^verbatim>\<open>MAX_CONTEXT_CHARS\<close>
  fails in the truncation case: the context is cut to the maximum and the ellipsis is
  appended after the cut. Under the default configuration (400, 400, 1000) the document
  below, whose span 400..434 is its one embedded image, gets a context of 1001 characters.
\<close>

theorem context_exceeds_max:
  "finditer crowded_markdown = [(400, 434, lit ''data:image/png;base64,AAAA'')]
   \<and> MAX_CONTEXT_CHARS default_config = 1000
   \<and> length (build_surrounding_context default_config crowded_markdown 400 434) = 1001"
proof -
  have "length (py_slice (concat (replicate 50 (lit ''[ImageRef]'')) @ lit '' [IMAGE LOCATION] ''
               @ concat (replicate 50 (lit ''[ImageRef]''))) 0 1000 @ [8230]) = nat 1000 + 1"
    by (rule truncated_length) (simp_all add: refs_length length_lit)
  then have "length (build_surrounding_context default_config crowded_markdown 400 434) = 1001"
    by (simp only: context_crowded)
  moreover have "finditer crowded_markdown = [(400, 434, lit ''data:image/png;base64,AAAA'')]"
    using finditer_skips_links [of 0 50 "lit ''![fig](data:image/png;base64,AAAA)''
        @ concat (replicate 50 (lit ''![](abc)''))"]
      finditer_skips_links [of 434 50 "[]"]
    by (simp add: finditer_def crowded_markdown_def finditer_marker)
  ultimately show ?thesis by (simp add: default_config_def)
qed

end
